theory Spec2Isabelle
  imports Main "HOL-Library.Product_Lexorder"
begin

section \<open>The task queue of lib/cuckoo/core/database.py\<close>

text \<open>
  Clock readings are natural numbers; only their order and equality matter.
  Exceptions are values of one type for the whole development.
\<close>

type_synonym datetime = nat

datatype error =
    AttributeError
  | NameError string
  | TypeError
  | ValueError
  | ProcessingError
  | ConnectionFailure
  | DatabaseError
  | KeyboardInterrupt

text \<open>
  One row of the table \<open>tasks\<close> (class \<open>Task\<close>). The primary key \<open>id\<close> is
  called \<open>task_id\<close> here. The column \<open>status\<close> holds a string; the column type
  \<open>Enum("pending", "processing", "failure", "success")\<close> is the list \<open>status_type\<close>,
  which the engine checks when a row is written.
\<close>

record task =
  task_id :: nat
  md5 :: "string option"
  file_path :: string
  timeout :: int
  priority :: int
  custom :: "string option"
  machine :: "string option"
  package :: "string option"
  options :: "string option"
  platform :: "string option"
  added_on :: datetime
  completed_on :: "datetime option"
  status :: string

definition status_type :: "string list" where
  "status_type = [''pending'', ''processing'', ''failure'', ''success'']"

text \<open>
  The database: the rows in insertion order, the next primary key, and the scalar
  that the column \<open>added_on\<close> carries as its default. The class body says
  \<open>default=datetime.now()\<close>: the call is made once, when the class is defined, and
  its result is what the column keeps; \<open>added_on_default\<close> is that result.
\<close>

record database =
  tasks :: "task list"
  next_id :: nat
  added_on_default :: datetime

definition empty_database :: "datetime \<Rightarrow> database" where
  "empty_database d = \<lparr>tasks = [], next_id = 1, added_on_default = d\<rparr>"

text \<open>
  What one call of a mutating \<open>Database\<close> method meets outside the program:
  whether the engine lets \<open>session.commit()\<close> through, whether it answers the
  reads the session makes outside the \<open>try\<close> (the query behind \<open>get\<close>, and the
  reload of \<open>task.id\<close>, which the commit has expired), what \<open>datetime.now()\<close>
  reads during the call, and which paths \<open>os.path.exists\<close> finds.
\<close>

record call =
  commits :: bool
  reads :: bool
  now :: datetime
  path_exists :: "string \<Rightarrow> bool"

text \<open>
  \<open>session.commit()\<close> writes the row the session holds. It raises (and the method
  rolls back) when the engine fails or when the row's status is not a value of
  the column's enumeration.
\<close>

definition flush_ok :: "call \<Rightarrow> task \<Rightarrow> bool" where
  "flush_ok c t = (commits c \<and> status t \<in> set status_type)"

text \<open>\<open>session.query(Task).get(task_id)\<close>: the row with that key, or \<open>None\<close>.\<close>

definition get :: "database \<Rightarrow> nat \<Rightarrow> task option" where
  "get db i = find (\<lambda>t. task_id t = i) (tasks db)"

definition write_row :: "task \<Rightarrow> database \<Rightarrow> database" where
  "write_row t' db =
     db\<lparr>tasks := map (\<lambda>t. if task_id t = task_id t' then t' else t) (tasks db)\<rparr>"

text \<open>
  \<open>Database._set_status(task_id, status)\<close>. Line 111 stands before the \<open>try\<close>:
  a storage error of the query goes to the caller, and on a missing row the
  attribute assignment raises \<open>AttributeError\<close> to the caller. Only the commit is
  guarded.
\<close>

definition Database_set_status ::
  "call \<Rightarrow> database \<Rightarrow> nat \<Rightarrow> string \<Rightarrow> error + bool \<times> database" where
  "Database_set_status c db i st =
     (if \<not> reads c then Inl DatabaseError
      else
        (case get db i of
           None \<Rightarrow> Inl AttributeError
         | Some t \<Rightarrow>
             (let t' = t\<lparr>status := st\<rparr>
              in if flush_ok c t' then Inr (True, write_row t' db) else Inr (False, db))))"

text \<open>The keyword arguments of \<open>Database.add\<close>, and the defaults of its signature.\<close>

record add_args =
  arg_md5 :: "string option"
  arg_timeout :: int
  arg_package :: "string option"
  arg_options :: "string option"
  arg_priority :: int
  arg_custom :: "string option"
  arg_machine :: "string option"
  arg_platform :: "string option"

definition add_defaults :: add_args where
  "add_defaults =
     \<lparr>arg_md5 = None, arg_timeout = 0, arg_package = None, arg_options = None,
      arg_priority = 1, arg_custom = None, arg_machine = None, arg_platform = None\<rparr>"

text \<open>
  \<open>Database.add\<close>. No statement of it sets \<open>added_on\<close>, \<open>completed_on\<close> or
  \<open>status\<close>: the row gets the column defaults. The result is what the call
  returns or raises, and the store it leaves. \<open>return task.id\<close> (line 160)
  stands after the \<open>try\<close> and reloads the row that the commit has written: a
  storage error of that read goes to the caller, with the row stored.
\<close>

definition new_task :: "database \<Rightarrow> string \<Rightarrow> add_args \<Rightarrow> task" where
  "new_task db fp a =
     \<lparr>task_id = next_id db, md5 = arg_md5 a, file_path = fp, timeout = arg_timeout a,
      priority = arg_priority a, custom = arg_custom a, machine = arg_machine a,
      package = arg_package a, options = arg_options a, platform = arg_platform a,
      added_on = added_on_default db, completed_on = None, status = ''pending''\<rparr>"

definition add ::
  "call \<Rightarrow> database \<Rightarrow> string \<Rightarrow> add_args \<Rightarrow> (error + nat option) \<times> database" where
  "add c db fp a =
     (if fp = [] \<or> \<not> path_exists c fp then (Inr None, db)
      else
        (let t = new_task db fp a
         in if flush_ok c t
            then (if reads c then Inr (Some (task_id t)) else Inl DatabaseError,
                  db\<lparr>tasks := tasks db @ [t], next_id := Suc (next_id db)\<rparr>)
            else (Inr None, db)))"

text \<open>
  \<open>Database.fetch\<close>: the first row of
  \<open>filter(status == "pending").order_by("priority desc, added_on")\<close>. The
  engine reads the table in the order of its rows, which is the order of
  insertion, and sorts the matching rows by the two keys; rows with equal keys
  stay in the order in which they were read (\<open>sort_key\<close> is stable). \<open>fetch\<close>
  and \<open>view\<close> are read for a store that answers the query.
\<close>

definition order_key :: "task \<Rightarrow> int \<times> datetime" where
  "order_key t = (- priority t, added_on t)"



text \<open>
  \<open>Database.complete\<close>. As in \<open>_set_status\<close>, the query (line 177) and the
  attribute assignments stand before the \<open>try\<close>. (\<open>task.lock\<close> is no column: the
  assignment leaves the row as it is.)
\<close>

definition complete :: "call \<Rightarrow> database \<Rightarrow> nat \<Rightarrow> bool \<Rightarrow> error + bool \<times> database" where
  "complete c db i success =
     (if \<not> reads c then Inl DatabaseError
      else
        (case get db i of
           None \<Rightarrow> Inl AttributeError
         | Some t \<Rightarrow>
             (let t' = t\<lparr>status := (if success then ''success'' else ''failure''),
                         completed_on := Some (now c)\<rparr>
              in if flush_ok c t' then Inr (True, write_row t' db) else Inr (False, db))))"

text \<open>\<open>Database.process\<close> and \<open>Database.view\<close>.\<close>

definition Database_process :: "call \<Rightarrow> database \<Rightarrow> nat \<Rightarrow> error + bool \<times> database" where
  "Database_process c db i = Database_set_status c db i ''processing''"

definition view :: "database \<Rightarrow> nat \<Rightarrow> task option" where
  "view db i = get db i"

text \<open>
  A history of the store: the mutating calls made on it, each with what it met,
  and the store they leave (\<open>add\<close> may raise after its row is stored; the other
  calls raise before they write).
\<close>

datatype request =
    Add string add_args
  | SetStatus nat string
  | Process nat
  | Complete nat bool

fun perform :: "call \<Rightarrow> request \<Rightarrow> database \<Rightarrow> database" where
  "perform c (Add fp a) db = snd (add c db fp a)"
| "perform c (SetStatus i st) db =
     (case Database_set_status c db i st of Inl e \<Rightarrow> db | Inr (ok, db') \<Rightarrow> db')"
| "perform c (Process i) db =
     (case Database_process c db i of Inl e \<Rightarrow> db | Inr (ok, db') \<Rightarrow> db')"
| "perform c (Complete i s) db =
     (case complete c db i s of Inl e \<Rightarrow> db | Inr (ok, db') \<Rightarrow> db')"

fun history :: "(call \<times> request) list \<Rightarrow> database \<Rightarrow> database" where
  "history [] db = db"
| "history ((c, r) # rs) db = history rs (perform c r db)"

section \<open>Stored results: the MongoDB collections and GridFS (utils/process.py)\<close>

text \<open>
  The documents the cleanup of \<open>process\<close> reads, with the fields it reads. A
  field the code tests with \<open>in\<close> before reading it is optional; the others are
  read unguarded. \<open>dropped\<close> lists, per dropped file, its \<open>object_id\<close> if it has
  one; \<open>behavior_processes\<close> lists, per process, the ids of its call documents.
\<close>

type_synonym objectid = nat

record analysis =
  analysis_id :: objectid
  info_id :: int
  target_file_id :: "objectid option"
  shots :: "objectid list"
  network_pcap_id :: "objectid option"
  network_sorted_pcap_id :: "objectid option"
  dropped :: "objectid option list"
  behavior_processes :: "objectid list list"

text \<open>
  \<open>mdata.analysis\<close>, \<open>mdata.calls\<close> (its documents by \<open>_id\<close>) and the files of
  \<open>GridFS(mdata)\<close> by id.
\<close>

record mongo =
  analysis_collection :: "analysis list"
  calls_collection :: "objectid set"
  fs :: "objectid set"

text \<open>\<open>mdata.analysis.find(query).count()\<close> and \<open>fs.delete(id)\<close>.\<close>

definition find_count :: "(analysis \<Rightarrow> bool) \<Rightarrow> mongo \<Rightarrow> nat" where
  "find_count query m = length (filter query (analysis_collection m))"

definition fs_delete :: "objectid \<Rightarrow> mongo \<Rightarrow> mongo" where
  "fs_delete x m = m\<lparr>fs := fs m - {x}\<rparr>"

text \<open>
  The guarded delete that the loop body writes five times,
  \<open>if mdata.analysis.find({field: X}).count() == 1: fs.delete(X)\<close>; \<open>query x\<close>
  is the test \<open>{field: x}\<close> on a document. A query on an array field (\<open>shots\<close>,
  \<open>dropped.object_id\<close>) matches a document whose array holds the value.
\<close>

definition delete_if_sole :: "(objectid \<Rightarrow> analysis \<Rightarrow> bool) \<Rightarrow> objectid \<Rightarrow> mongo \<Rightarrow> mongo" where
  "delete_if_sole query x m = (if find_count (query x) m = 1 then fs_delete x m else m)"

definition remove_call :: "objectid \<Rightarrow> mongo \<Rightarrow> mongo" where
  "remove_call c m = m\<lparr>calls_collection := calls_collection m - {c}\<rparr>"

text \<open>The body of \<open>for analysis in analyses\<close> (lines 60 to 76).\<close>

definition cleanup_analysis :: "analysis \<Rightarrow> mongo \<Rightarrow> mongo" where
  "cleanup_analysis a m0 =
     (let m1 = (case target_file_id a of
                  None \<Rightarrow> m0
                | Some f \<Rightarrow> delete_if_sole (\<lambda>x b. target_file_id b = Some x) f m0);
          m2 = fold (delete_if_sole (\<lambda>x b. x \<in> set (shots b))) (shots a) m1;
          m3 = (case network_pcap_id a of
                  None \<Rightarrow> m2
                | Some p \<Rightarrow> delete_if_sole (\<lambda>x b. network_pcap_id b = Some x) p m2);
          m4 = (case network_sorted_pcap_id a of
                  None \<Rightarrow> m3
                | Some p \<Rightarrow> delete_if_sole (\<lambda>x b. network_sorted_pcap_id b = Some x) p m3);
          m5 = fold (\<lambda>drop m.
                  case drop of
                    None \<Rightarrow> m
                  | Some x \<Rightarrow> delete_if_sole (\<lambda>x b. Some x \<in> set (dropped b)) x m)
                 (dropped a) m4;
          m6 = fold (\<lambda>proc m. fold remove_call proc m) (behavior_processes a) m5
      in m6\<lparr>analysis_collection :=
               filter (\<lambda>b. analysis_id b \<noteq> analysis_id a) (analysis_collection m6)\<rparr>)"

text \<open>
  Lines 56 to 76, given the number that \<open>int(task_id)\<close> yields: the analyses of the
  task are found, and each is cleaned in turn.
\<close>

definition cleanup :: "int \<Rightarrow> mongo \<Rightarrow> mongo" where
  "cleanup tid m =
     (let analyses = filter (\<lambda>a. info_id a = tid) (analysis_collection m)
      in if length analyses > 0 then fold cleanup_analysis analyses m else m)"

text \<open>
  The ids an analysis record references, in whatever field, and the number of
  records that reference a given id.
\<close>

definition referenced_ids :: "analysis \<Rightarrow> objectid set" where
  "referenced_ids a =
     set_option (target_file_id a) \<union> set (shots a) \<union> set_option (network_pcap_id a)
     \<union> set_option (network_sorted_pcap_id a) \<union> (\<Union>d\<in>set (dropped a). set_option d)"

definition reference_count :: "mongo \<Rightarrow> objectid \<Rightarrow> nat" where
  "reference_count m x = find_count (\<lambda>b. x \<in> referenced_ids b) m"

text \<open>
  What the code counts: each of its five queries looks at one field. The ids an
  analysis holds in a field, and the ids of an analysis that some field holds in
  exactly one record of the collection.
\<close>

datatype field = TargetFile | Shots | Pcap | SortedPcap | Dropped

fun field_ids :: "field \<Rightarrow> analysis \<Rightarrow> objectid set" where
  "field_ids TargetFile a = set_option (target_file_id a)"
| "field_ids Shots a = set (shots a)"
| "field_ids Pcap a = set_option (network_pcap_id a)"
| "field_ids SortedPcap a = set_option (network_sorted_pcap_id a)"
| "field_ids Dropped a = (\<Union>d\<in>set (dropped a). set_option d)"

definition sole_references :: "analysis \<Rightarrow> mongo \<Rightarrow> objectid set" where
  "sole_references a m =
     {x. \<exists>F. x \<in> field_ids F a \<and> find_count (\<lambda>b. x \<in> field_ids F b) m = 1}"

section \<open>The task table as utils/process.py uses it\<close>

text \<open>
  \<open>process.py\<close> imports \<open>TASK_REPORTED\<close>, \<open>TASK_COMPLETED\<close>,
  \<open>TASK_FAILED_PROCESSING\<close> and calls \<open>set_status\<close>, \<open>list_tasks\<close> and
  \<open>view_sample\<close> of a \<open>Database\<close> class; the module under
  \<open>lib/cuckoo/core/database.py\<close> defines none of them. The table is kept here as
  the status of each task id.
\<close>

definition TASK_COMPLETED :: string where
  "TASK_COMPLETED = ''completed''"

definition TASK_REPORTED :: string where
  "TASK_REPORTED = ''reported''"

definition TASK_FAILED_PROCESSING :: string where
  "TASK_FAILED_PROCESSING = ''failed_processing''"

text \<open>
  Modelled from the spec: \<open>Database.set_status(id, status)\<close>, the generic status
  setter, which is missing from the sources. It sets the status of the task and
  returns true; when the commit fails it rolls back and returns a false value,
  leaving the table as it was. \<open>commit_ok\<close> says whether the commit of this call
  goes through.
\<close>

definition set_status ::
  "bool \<Rightarrow> nat \<Rightarrow> string \<Rightarrow> (nat \<rightharpoonup> string) \<Rightarrow> bool \<times> (nat \<rightharpoonup> string)" where
  "set_status commit_ok i st table =
     (if commit_ok \<and> i \<in> dom table then (True, table(i \<mapsto> st)) else (False, table))"

section \<open>The pipeline of one task: process (utils/process.py)\<close>

text \<open>
  Python values, as far as \<open>process\<close> handles them, and the names a running
  \<open>process\<close> can read. A name that the body never assigns is looked up among the
  module's globals and the builtins; a name found nowhere raises \<open>NameError\<close>.
  \<open>process_frame\<close> binds the parameters, every name the body assigns anywhere
  (whether or not the assignment has run yet: more names than any real frame
  holds), every name the module binds at top level, and the builtins the module
  uses.
\<close>

datatype pyval = PyNone | PyBool bool | PyInt int | PyStr string | PyObject

definition module_globals :: "string list" where
  "module_globals =
     [''os'', ''sys'', ''time'', ''logging'', ''argparse'', ''signal'', ''multiprocessing'',
      ''log'', ''ObjectId'', ''GridFS'', ''Config'', ''CUCKOO_ROOT'', ''Database'',
      ''TASK_REPORTED'', ''TASK_COMPLETED'', ''TASK_FAILED_PROCESSING'', ''GetFeeds'',
      ''RunProcessing'', ''RunSignatures'', ''RunReporting'', ''init_modules'',
      ''MongoClient'', ''ConnectionFailure'', ''process'', ''init_worker'', ''autoprocess'',
      ''main'', ''cfg'']"

definition builtins :: "string list" where
  "builtins = [''int'', ''list'', ''dict'', ''len'', ''str'', ''True'', ''False'', ''None'']"

definition process_locals :: "string list" where
  "process_locals =
     [''results'', ''mongoconf'', ''host'', ''port'', ''db'', ''conn'', ''mdata'', ''fs'',
      ''analyses'', ''analysis'', ''shot'', ''drop'', ''process'', ''call'']"

definition process_frame ::
  "string option \<Rightarrow> string option \<Rightarrow> pyval \<Rightarrow> bool \<Rightarrow> bool \<Rightarrow> (string \<rightharpoonup> pyval)" where
  "process_frame target copy_path task report auto =
     map_of
       ([(''target'', case target of None \<Rightarrow> PyNone | Some p \<Rightarrow> PyStr p),
         (''copy_path'', case copy_path of None \<Rightarrow> PyNone | Some p \<Rightarrow> PyStr p),
         (''task'', task), (''report'', PyBool report), (''auto'', PyBool auto)]
        @ map (\<lambda>n. (n, PyObject)) (process_locals @ module_globals @ builtins))"

definition load_name :: "string \<Rightarrow> (string \<rightharpoonup> pyval) \<Rightarrow> error + pyval" where
  "load_name n frame = (case frame n of None \<Rightarrow> Inl (NameError n) | Some v \<Rightarrow> Inr v)"

text \<open>
  \<open>int(v)\<close>. A string is not parsed (no string reaches \<open>int\<close> in \<open>process\<close>).
  The key of a task row named by a value: a non-negative integer.
\<close>

fun py_int :: "pyval \<Rightarrow> error + int" where
  "py_int (PyInt i) = Inr i"
| "py_int (PyBool b) = Inr (if b then 1 else 0)"
| "py_int (PyStr s) = Inl ValueError"
| "py_int v = Inl TypeError"

fun row_key :: "pyval \<Rightarrow> nat option" where
  "row_key (PyInt i) = (if 0 \<le> i then Some (nat i) else None)"
| "row_key v = None"

text \<open>
  What \<open>process\<close> works on, and what it meets: the stages it calls
  (\<open>RunProcessing\<close>, \<open>GetFeeds\<close>, \<open>RunSignatures\<close>, \<open>RunReporting\<close>) and the
  configuration are not part of the sources; each stage either returns or raises,
  and reporting rewrites the stored results.
\<close>

record world =
  mongo_db :: mongo
  task_status :: "nat \<rightharpoonup> string"
  files :: "string set"

record collaborators =
  run_processing :: "error option"
  get_feeds :: "error option"
  run_signatures :: "error option"
  mongodb_enabled :: bool
  mongo_client :: "error option"
  run_reporting :: "mongo \<Rightarrow> error + mongo"
  status_commit :: bool
  delete_original :: bool
  delete_bin_copy :: bool

text \<open>Lines 48 to 78: the block under \<open>if mongoconf["enabled"]\<close>.\<close>

definition delete_previous ::
  "collaborators \<Rightarrow> (string \<rightharpoonup> pyval) \<Rightarrow> world \<Rightarrow> error + world" where
  "delete_previous x frame w =
     (if mongodb_enabled x then
        (case mongo_client x of
           Some e \<Rightarrow> Inl e
         | None \<Rightarrow>
             (case load_name ''task_id'' frame of
                Inl e \<Rightarrow> Inl e
              | Inr v \<Rightarrow>
                  (case py_int v of
                     Inl e \<Rightarrow> Inl e
                   | Inr tid \<Rightarrow> Inr (w\<lparr>mongo_db := cleanup tid (mongo_db w)\<rparr>))))
      else Inr w)"

text \<open>
  Lines 83 to 88: the files removed in automatic mode. \<open>os.path.exists(None)\<close>
  raises.
\<close>

definition unlink_if :: "bool \<Rightarrow> string option \<Rightarrow> world \<Rightarrow> error + world" where
  "unlink_if wanted path w =
     (if wanted then
        (case path of
           None \<Rightarrow> Inl TypeError
         | Some p \<Rightarrow> Inr (if p \<in> files w then w\<lparr>files := files w - {p}\<rparr> else w))
      else Inr w)"

text \<open>
  Lines 80 to 88: reporting, the status update, and the removals. The result is
  the world as the call leaves it and the exception it raises, if any.
\<close>

definition report_and_mark ::
  "collaborators \<Rightarrow> (string \<rightharpoonup> pyval) \<Rightarrow> string option \<Rightarrow> string option \<Rightarrow> bool \<Rightarrow> world
     \<Rightarrow> world \<times> error option" where
  "report_and_mark x frame target copy_path auto w =
     (case run_reporting x (mongo_db w) of
        Inl e \<Rightarrow> (w, Some e)
      | Inr m \<Rightarrow>
          (let w1 = w\<lparr>mongo_db := m\<rparr>
           in case load_name ''task_id'' frame of
                Inl e \<Rightarrow> (w1, Some e)
              | Inr v \<Rightarrow>
                  (let w2 = (case row_key v of
                               None \<Rightarrow> w1
                             | Some i \<Rightarrow>
                                 w1\<lparr>task_status :=
                                      snd (set_status (status_commit x) i TASK_REPORTED
                                             (task_status w1))\<rparr>)
                   in if auto then
                        (case unlink_if (delete_original x) target w2 of
                           Inl e \<Rightarrow> (w2, Some e)
                         | Inr w3 \<Rightarrow>
                             (case unlink_if (delete_bin_copy x) copy_path w3 of
                                Inl e \<Rightarrow> (w3, Some e)
                              | Inr w4 \<Rightarrow> (w4, None)))
                      else (w2, None))))"

text \<open>
  Lines 32 to 45: \<open>RunProcessing\<close>, \<open>GetFeeds\<close>, \<open>RunProcessing\<close> again and
  \<open>RunSignatures\<close>. The first exception of a stage ends the call.
\<close>

definition stages :: "collaborators \<Rightarrow> error option" where
  "stages x =
     (case run_processing x of
        Some e \<Rightarrow> Some e
      | None \<Rightarrow>
          (case get_feeds x of
             Some e \<Rightarrow> Some e
           | None \<Rightarrow>
               (case run_processing x of
                  Some e \<Rightarrow> Some e
                | None \<Rightarrow> run_signatures x)))"

text \<open>\<open>process(target, copy_path, task, report, auto)\<close>.\<close>

definition process ::
  "collaborators \<Rightarrow> world \<Rightarrow> string option \<Rightarrow> string option \<Rightarrow> pyval \<Rightarrow> bool \<Rightarrow> bool
     \<Rightarrow> world \<times> error option" where
  "process x w target copy_path task report auto =
     (case stages x of
        Some e \<Rightarrow> (w, Some e)
      | None \<Rightarrow>
          if report then
            (let frame = process_frame target copy_path task report auto
             in case delete_previous x frame w of
                  Inl e \<Rightarrow> (w, Some e)
                | Inr w' \<Rightarrow> report_and_mark x frame target copy_path auto w')
          else (w, None))"

section \<open>The scheduling loop: autoprocess (utils/process.py)\<close>

text \<open>
  A task as \<open>db.list_tasks\<close> returns it, with the attributes the loop reads
  (\<open>task.id\<close> is \<open>id_of\<close>), and an entry of \<open>pending_results\<close>: the tuple
  \<open>(ar, tid, target, copy_path)\<close>. An \<open>AsyncResult\<close> is compared by identity;
  it is named by the number of the \<open>apply_async\<close> call that made it.
\<close>

record completed_task =
  id_of :: nat
  category :: string
  sample_id :: nat
  target :: string

type_synonym pending_result = "nat \<times> nat \<times> string \<times> string option"

definition tid_of :: "pending_result \<Rightarrow> nat" where
  "tid_of r = fst (snd r)"

text \<open>
  What one pass of the loop meets: for each \<open>AsyncResult\<close> what \<open>ready()\<close> and
  \<open>successful()\<close> answer, for each task id whether the commit of a status update
  goes through, the rows that \<open>list_tasks\<close> selects before its limit is applied (or
  the exception the query raises), and for each sample id the \<open>sha256\<close> of the
  sample that \<open>view_sample\<close> returns, if there is one.
\<close>

record observation =
  ready :: "nat \<Rightarrow> bool"
  successful :: "nat \<Rightarrow> bool"
  status_commits :: "nat \<Rightarrow> bool"
  list_tasks :: "error + completed_task list"
  view_sample :: "nat \<Rightarrow> string option"

text \<open>
  The variables of \<open>autoprocess\<close>: \<open>count\<close>, \<open>pending_results\<close>, the task
  table behind \<open>db\<close> as the loop's own writes leave it, and the number of
  \<open>apply_async\<close> calls made on the pool so far. \<open>settings\<close> holds what the
  function reads from the configuration and the constants module.
\<close>

record orchestrator =
  count :: int
  pending_results :: "pending_result list"
  table :: "nat \<rightharpoonup> string"
  submitted :: nat

record settings =
  cuckoo_root :: string
  max_analysis_count :: int

definition initial :: "(nat \<rightharpoonup> string) \<Rightarrow> orchestrator" where
  "initial tbl = \<lparr>count = 0, pending_results = [], table = tbl, submitted = 0\<rparr>"

text \<open>
  The maintenance of \<open>pending_results\<close> (lines 105 to 116), one entry of the
  copy \<open>list(pending_results)\<close> at a time. A ready result that was not successful
  makes \<open>ar.get()\<close> raise, and the handler calls \<open>db.set_status\<close>, whose answer is
  dropped. \<open>list.remove\<close> takes out the first equal entry; the entry is always
  there, since only this loop removes entries and each entry of the copy is
  visited once.
\<close>

fun reap_one :: "observation \<Rightarrow> pending_result \<Rightarrow> orchestrator \<Rightarrow> orchestrator" where
  "reap_one ob (ar, tid, tgt, copy_path) s =
     (if ready ob ar then
        (let s1 = (if successful ob ar then s
                   else s\<lparr>table :=
                           snd (set_status (status_commits ob tid) tid TASK_FAILED_PROCESSING
                                  (table s))\<rparr>)
         in s1\<lparr>pending_results := remove1 (ar, tid, tgt, copy_path) (pending_results s1)\<rparr>)
      else s)"

definition reap :: "observation \<Rightarrow> orchestrator \<Rightarrow> orchestrator" where
  "reap ob s = fold (reap_one ob) (pending_results s) s"

text \<open>Lines 138 to 144: \<open>copy_path\<close> of a task; \<open>view_sample\<close> may return \<open>None\<close>.\<close>

definition copy_path_of ::
  "string \<Rightarrow> observation \<Rightarrow> completed_task \<Rightarrow> error + string option" where
  "copy_path_of root ob t =
     (if category t = ''file'' then
        (case view_sample ob (sample_id t) of
           None \<Rightarrow> Inl AttributeError
         | Some sha256 \<Rightarrow> Inr (Some (root @ ''/storage/binaries/'' @ sha256)))
      else Inr None)"

text \<open>
  The \<open>for task in tasks\<close> loop (lines 130 to 154): a task whose id is in
  \<open>pending_results\<close> is skipped; the first other task is submitted and the loop
  is left. The boolean is \<open>added\<close>.
\<close>

fun submit_first ::
  "string \<Rightarrow> observation \<Rightarrow> completed_task list \<Rightarrow> orchestrator
     \<Rightarrow> error + orchestrator \<times> bool" where
  "submit_first root ob [] s = Inr (s, False)"
| "submit_first root ob (t # ts) s =
     (if id_of t \<in> set (map tid_of (pending_results s)) then submit_first root ob ts s
      else
        (case copy_path_of root ob t of
           Inl e \<Rightarrow> Inl e
         | Inr copy_path \<Rightarrow>
             Inr (s\<lparr>pending_results :=
                      pending_results s @ [(submitted s, id_of t, target t, copy_path)],
                    count := count s + 1,
                    submitted := Suc (submitted s)\<rparr>, True)))"

text \<open>
  One pass of the body of the \<open>while\<close> loop (lines 104 to 158). The sleeps
  change nothing. An exception leaves the loop.
\<close>

definition pass :: "string \<Rightarrow> int \<Rightarrow> observation \<Rightarrow> orchestrator \<Rightarrow> error + orchestrator" where
  "pass root parallel ob s =
     (let s1 = reap ob s
      in if parallel \<le> int (length (pending_results s1)) then Inr s1
         else
           (case list_tasks ob of
              Inl e \<Rightarrow> Inl e
            | Inr rows \<Rightarrow>
                (case submit_first root ob (take (nat parallel) rows) s1 of
                   Inl e \<Rightarrow> Inl e
                 | Inr (s2, added) \<Rightarrow> Inr s2)))"

text \<open>The test of the \<open>while\<close> loop: \<open>count < maxcount or not maxcount\<close>.\<close>

definition loop_test :: "int \<Rightarrow> orchestrator \<Rightarrow> bool" where
  "loop_test maxcount s = (count s < maxcount \<or> maxcount = 0)"

text \<open>
  The loop, run on the observations of its passes. The loop need not end: the
  list of observations is the number of passes looked at. \<open>Looping\<close> says that
  the test still held when the observations ran out, \<open>Exited\<close> that the test
  failed, \<open>Raised\<close> that an exception left the loop.
\<close>

datatype ending = Looping | Exited | Raised error

fun run ::
  "string \<Rightarrow> int \<Rightarrow> int \<Rightarrow> observation list \<Rightarrow> orchestrator \<Rightarrow> orchestrator \<times> ending" where
  "run root maxcount parallel [] s = (s, if loop_test maxcount s then Looping else Exited)"
| "run root maxcount parallel (ob # obs) s =
     (if loop_test maxcount s then
        (case pass root parallel ob s of
           Inl e \<Rightarrow> (reap ob s, Raised e)
         | Inr s' \<Rightarrow> run root maxcount parallel obs s')
      else (s, Exited))"

text \<open>
  Every state the variables go through during the same run: the state at each
  test of the loop, after each step of the maintenance, and after a submission.
\<close>

fun reap_states :: "observation \<Rightarrow> pending_result list \<Rightarrow> orchestrator \<Rightarrow> orchestrator list" where
  "reap_states ob [] s = [s]"
| "reap_states ob (r # rs) s = s # reap_states ob rs (reap_one ob r s)"

fun run_states ::
  "string \<Rightarrow> int \<Rightarrow> int \<Rightarrow> observation list \<Rightarrow> orchestrator \<Rightarrow> orchestrator list" where
  "run_states root maxcount parallel [] s = [s]"
| "run_states root maxcount parallel (ob # obs) s =
     (if loop_test maxcount s then
        reap_states ob (pending_results s) s @
        (case pass root parallel ob s of
           Inl e \<Rightarrow> []
         | Inr s' \<Rightarrow> run_states root maxcount parallel obs s')
      else [s])"

text \<open>
  \<open>autoprocess(parallel)\<close>. \<open>multiprocessing.Pool(parallel, init_worker)\<close>
  raises \<open>ValueError\<close> for a number of processes below one, before the \<open>try\<close>.
  What follows the loop (\<open>pool.terminate\<close>, \<open>pool.join\<close>) acts on the pool
  only.
\<close>

definition autoprocess ::
  "settings \<Rightarrow> int \<Rightarrow> (nat \<rightharpoonup> string) \<Rightarrow> observation list
     \<Rightarrow> error + orchestrator \<times> ending" where
  "autoprocess cfg parallel tbl obs =
     (if parallel < 1 then Inl ValueError
      else Inr (run (cuckoo_root cfg) (max_analysis_count cfg) parallel obs (initial tbl)))"

definition autoprocess_states ::
  "settings \<Rightarrow> int \<Rightarrow> (nat \<rightharpoonup> string) \<Rightarrow> observation list \<Rightarrow> orchestrator list" where
  "autoprocess_states cfg parallel tbl obs =
     (if parallel < 1 then []
      else run_states (cuckoo_root cfg) (max_analysis_count cfg) parallel obs (initial tbl))"

section \<open>Concrete stores, documents and runs\<close>

text \<open>
  The inputs on which the theorems below are evaluated. \<open>here\<close> is a call whose
  commit and reads go through; the other stores are built from the empty one by
  calls of \<open>add\<close> made at different clock readings.
\<close>

definition here :: call where
  "here = \<lparr>commits = True, reads = True, now = 10, path_exists = (\<lambda>p. True)\<rparr>"

definition one_task :: database where
  "one_task = history [(here, Add ''/a'' add_defaults)] (empty_database 5)"

definition two_tasks :: database where
  "two_tasks =
     history [(here, Add ''/a'' add_defaults), (here\<lparr>now := 20\<rparr>, Add ''/b'' add_defaults)]
       (empty_database 5)"


text \<open>
  The status values of the queue as the specification lists them, for comparison
  with \<open>status_type\<close>.
\<close>

definition claimed_statuses :: "string list" where
  "claimed_statuses =
     [''pending'', ''processing'', ''completed'', ''reported'', ''failure'', ''failed_processing'']"

text \<open>Two analyses of two tasks that share a sample and a screenshot.\<close>

definition first_analysis :: analysis where
  "first_analysis =
     \<lparr>analysis_id = 1, info_id = 1, target_file_id = Some 100, shots = [200, 201],
      network_pcap_id = Some 300, network_sorted_pcap_id = None,
      dropped = [Some 400, None], behavior_processes = [[500, 501]]\<rparr>"

definition second_analysis :: analysis where
  "second_analysis =
     \<lparr>analysis_id = 2, info_id = 2, target_file_id = Some 100, shots = [201],
      network_pcap_id = None, network_sorted_pcap_id = None,
      dropped = [], behavior_processes = [[502]]\<rparr>"

definition stored :: mongo where
  "stored =
     \<lparr>analysis_collection = [first_analysis, second_analysis],
      calls_collection = {500, 501, 502}, fs = {100, 200, 201, 300, 400}\<rparr>"

text \<open>A call of \<open>process\<close> in which every stage returns.\<close>

definition all_return :: collaborators where
  "all_return =
     \<lparr>run_processing = None, get_feeds = None, run_signatures = None,
      mongodb_enabled = True, mongo_client = None, run_reporting = (\<lambda>m. Inr m),
      status_commit = True, delete_original = False, delete_bin_copy = False\<rparr>"

definition task_five :: world where
  "task_five =
     \<lparr>mongo_db = stored, task_status = [5 \<mapsto> TASK_COMPLETED], files = {''/tmp/a''}\<rparr>"

definition task_one :: world where
  "task_one =
     \<lparr>mongo_db = stored, task_status = [1 \<mapsto> TASK_COMPLETED], files = {''/tmp/a''}\<rparr>"

text \<open>
  Runs of the loop: three completed tasks that are listed at every pass and of
  which no result becomes ready, and a maintenance pass in which the first of two
  results has failed.
\<close>

definition url_task :: "nat \<Rightarrow> completed_task" where
  "url_task i = \<lparr>id_of = i, category = ''url'', sample_id = 0, target = ''http://example.org''\<rparr>"

definition quiet :: observation where
  "quiet =
     \<lparr>ready = (\<lambda>ar. False), successful = (\<lambda>ar. False), status_commits = (\<lambda>i. True),
      list_tasks = Inr [url_task 7, url_task 8, url_task 9], view_sample = (\<lambda>i. None)\<rparr>"

definition three_completed :: "nat \<rightharpoonup> string" where
  "three_completed = [7 \<mapsto> TASK_COMPLETED, 8 \<mapsto> TASK_COMPLETED, 9 \<mapsto> TASK_COMPLETED]"

definition two_at_most :: settings where
  "two_at_most = \<lparr>cuckoo_root = ''/opt/cuckoo'', max_analysis_count = 2\<rparr>"

definition one_at_most :: settings where
  "one_at_most = \<lparr>cuckoo_root = ''/opt/cuckoo'', max_analysis_count = 1\<rparr>"

definition in_flight :: "nat \<Rightarrow> nat \<Rightarrow> pending_result" where
  "in_flight ar i = (ar, i, ''http://example.org'', None)"

definition one_in_flight :: "(nat \<rightharpoonup> string) \<Rightarrow> orchestrator" where
  "one_in_flight tbl =
     \<lparr>count = 1, pending_results = [in_flight 0 7], table = tbl, submitted = 1\<rparr>"

definition two_in_flight :: "(nat \<rightharpoonup> string) \<Rightarrow> orchestrator" where
  "two_in_flight tbl =
     \<lparr>count = 2, pending_results = [in_flight 0 7, in_flight 1 8], table = tbl, submitted = 2\<rparr>"

definition two_waiting :: orchestrator where
  "two_waiting =
     \<lparr>count = 2, pending_results = [(0, 7, ''/tmp/a'', None), (1, 8, ''/tmp/b'', None)],
      table = [7 \<mapsto> TASK_COMPLETED, 8 \<mapsto> TASK_COMPLETED], submitted = 2\<rparr>"

definition first_failed :: observation where
  "first_failed =
     \<lparr>ready = (\<lambda>ar. ar = 0), successful = (\<lambda>ar. False), status_commits = (\<lambda>i. True),
      list_tasks = Inr [], view_sample = (\<lambda>i. None)\<rparr>"

section \<open>Properties of the task queue\<close>

lemma get_Some_mem: "get db i = Some t \<Longrightarrow> t \<in> set (tasks db) \<and> task_id t = i"
  unfolding get_def by (auto simp: find_Some_iff)

lemma perform_default [simp]: "added_on_default (perform c r db) = added_on_default db"
  by (cases r)
     (auto simp: add_def Let_def Database_set_status_def Database_process_def complete_def
        write_row_def split: option.splits)

lemma history_default [simp]: "added_on_default (history rs db) = added_on_default db"
  by (induction rs db rule: history.induct) auto

lemma perform_added_on:
  assumes "\<forall>t\<in>set (tasks db). added_on t = added_on_default db"
  shows "\<forall>t\<in>set (tasks (perform c r db)). added_on t = added_on_default db"
proof (cases r)
  case (Add fp a)
  then show ?thesis using assms by (auto simp: add_def Let_def new_task_def)
next
  case (SetStatus i st)
  then show ?thesis using assms
    by (auto simp: Database_set_status_def Let_def write_row_def
        split: option.splits dest!: get_Some_mem)
next
  case (Process i)
  then show ?thesis using assms
    by (auto simp: Database_process_def Database_set_status_def Let_def write_row_def
        split: option.splits dest!: get_Some_mem)
next
  case (Complete i s)
  then show ?thesis using assms
    by (auto simp: complete_def Let_def write_row_def split: option.splits dest!: get_Some_mem)
qed

lemma history_added_on:
  "\<forall>t\<in>set (tasks db). added_on t = added_on_default db \<Longrightarrow>
   \<forall>t\<in>set (tasks (history rs db)). added_on t = added_on_default db"
proof (induction rs db rule: history.induct)
  case (1 db)
  then show ?case by simp
next
  case (2 c r rs db)
  from perform_added_on[OF 2(2)]
  have "\<forall>t\<in>set (tasks (perform c r db)). added_on t = added_on_default (perform c r db)"
    by simp
  from 2(1)[OF this] show ?case by simp
qed

lemma perform_statuses:
  assumes "\<forall>t\<in>set (tasks db). status t \<in> set status_type"
  shows "\<forall>t\<in>set (tasks (perform c r db)). status t \<in> set status_type"
proof (cases r)
  case (Add fp a)
  then show ?thesis using assms by (auto simp: add_def Let_def flush_ok_def)
next
  case (SetStatus i st)
  then show ?thesis using assms
    by (auto simp: Database_set_status_def Let_def write_row_def flush_ok_def
        split: option.splits)
next
  case (Process i)
  then show ?thesis using assms
    by (auto simp: Database_process_def Database_set_status_def Let_def write_row_def
        flush_ok_def split: option.splits)
next
  case (Complete i s)
  then show ?thesis using assms
    by (auto simp: complete_def Let_def write_row_def flush_ok_def split: option.splits)
qed

lemma history_statuses:
  "\<forall>t\<in>set (tasks db). status t \<in> set status_type \<Longrightarrow>
   \<forall>t\<in>set (tasks (history rs db)). status t \<in> set status_type"
proof (induction rs db rule: history.induct)
  case (1 db)
  then show ?case by simp
next
  case (2 c r rs db)
  from 2(1)[OF perform_statuses[OF 2(2)]] show ?case by simp
qed







text \<open>The concrete stores, row by row.\<close>

lemma one_task_eq:
  "one_task = \<lparr>tasks = [new_task (empty_database 5) ''/a'' add_defaults], next_id = 2,
      added_on_default = 5\<rparr>"
  by (simp add: one_task_def here_def add_def flush_ok_def status_type_def new_task_def
      empty_database_def Let_def)

lemma two_tasks_eq:
  "two_tasks = \<lparr>tasks =
      [new_task (empty_database 5) ''/a'' add_defaults,
       new_task (empty_database 5\<lparr>next_id := 2\<rparr>) ''/b'' add_defaults],
      next_id = 3, added_on_default = 5\<rparr>"
  by (simp add: two_tasks_def here_def add_def flush_ok_def status_type_def new_task_def
      empty_database_def add_defaults_def Let_def)


text \<open>
  C9. \<open>add\<close> gives every row the same \<open>added_on\<close>: the clock reading taken when
  the class \<open>Task\<close> was defined, whatever the clock reads when the row is
  inserted (also when the call raises after the row is stored). So every row that
  any history of calls leaves in a store that started empty carries that reading,
  and two rows of equal priority have equal sort keys in \<open>fetch\<close>: the key
  cannot tell which was inserted first.
\<close>

theorem added_on_fixed_at_class_definition:
  "(add c db fp a = (Inr (Some i), db') \<longrightarrow>
      (\<exists>t. tasks db' = tasks db @ [t] \<and> task_id t = i \<and> added_on t = added_on_default db))
   \<and> (add c db fp a = (Inl e, db') \<longrightarrow>
      (\<exists>t. tasks db' = tasks db @ [t] \<and> added_on t = added_on_default db))
   \<and> (\<forall>t\<in>set (tasks (history rs (empty_database d))). added_on t = d)
   \<and> (\<forall>t\<in>set (tasks (history rs (empty_database d))).
        \<forall>u\<in>set (tasks (history rs (empty_database d))).
          priority t = priority u \<longrightarrow> order_key t = order_key u)"
proof -
  have all: "\<forall>t\<in>set (tasks (history rs (empty_database d))). added_on t = d"
    using history_added_on[of "empty_database d" rs] by (simp add: empty_database_def)
  have one: "add c db fp a = (Inr (Some i), db') \<longrightarrow>
      (\<exists>t. tasks db' = tasks db @ [t] \<and> task_id t = i \<and> added_on t = added_on_default db)"
    by (auto simp: add_def Let_def new_task_def split: if_splits)
  have raised: "add c db fp a = (Inl e, db') \<longrightarrow>
      (\<exists>t. tasks db' = tasks db @ [t] \<and> added_on t = added_on_default db)"
    by (auto simp: add_def Let_def new_task_def split: if_splits)
  from all one raised show ?thesis by (simp add: order_key_def)
qed

text \<open>
  Witness for C9: two rows added at the clock readings 10 and 20, in a store whose
  class was defined at 5, both carry 5.
\<close>

theorem added_on_fixed_witness:
  "map added_on (tasks two_tasks) = [5, 5] \<and> map task_id (tasks two_tasks) = [1, 2]"
proof -
  have "\<forall>t\<in>set (tasks two_tasks). added_on t = 5"
    using added_on_fixed_at_class_definition[where
        rs="[(here, Add ''/a'' add_defaults), (here\<lparr>now := 20\<rparr>, Add ''/b'' add_defaults)]"
        and d=5]
    unfolding two_tasks_def by blast
  moreover have "map task_id (tasks two_tasks) = [1, 2]"
    by (simp add: two_tasks_eq new_task_def empty_database_def)
  moreover have "length (tasks two_tasks) = 2" by (simp add: two_tasks_eq)
  ultimately show ?thesis by (simp add: two_tasks_eq)
qed

text \<open>
  C8, as amended. Every row that a history of calls leaves in the store has a
  status of the column's enumeration, which is pending, processing, failure and
  success; a status outside it (reported, failed_processing) is refused by the
  commit: for a task that has a row the setter returns false and leaves the store
  as it was (or raises, when the read before the commit fails). A task added with
  the defaults of \<open>add\<close> has priority 1, timeout 0 and status pending.
\<close>

theorem persisted_statuses_are_column_enum:
  "(\<forall>t\<in>set (tasks (history rs (empty_database d))). status t \<in> set status_type)
   \<and> (get db i \<noteq> None \<and> st \<notin> set status_type \<longrightarrow>
        Database_set_status c db i st = (if reads c then Inr (False, db) else Inl DatabaseError))
   \<and> (add c db fp add_defaults = (Inr (Some j), db') \<longrightarrow>
        (\<exists>t. tasks db' = tasks db @ [t] \<and> task_id t = j \<and> priority t = 1 \<and> timeout t = 0
           \<and> status t = ''pending''))"
proof -
  have a: "\<forall>t\<in>set (tasks (history rs (empty_database d))). status t \<in> set status_type"
    using history_statuses[of "empty_database d" rs] by (simp add: empty_database_def)
  have b: "get db i \<noteq> None \<and> st \<notin> set status_type \<longrightarrow>
        Database_set_status c db i st = (if reads c then Inr (False, db) else Inl DatabaseError)"
    by (auto simp: Database_set_status_def flush_ok_def Let_def)
  have c: "add c db fp add_defaults = (Inr (Some j), db') \<longrightarrow>
        (\<exists>t. tasks db' = tasks db @ [t] \<and> task_id t = j \<and> priority t = 1 \<and> timeout t = 0
           \<and> status t = ''pending'')"
    by (auto simp: add_def Let_def new_task_def add_defaults_def split: if_splits)
  from a b c show ?thesis by blast
qed

text \<open>
  Witness for C8: a task moved to processing; the same task refused the status
  reported; the defaults of the row that \<open>add\<close> made.
\<close>

theorem persisted_statuses_witness:
  "map status (tasks (history [(here, SetStatus 1 ''processing'')] one_task)) = [''processing'']
   \<and> Database_set_status here one_task 1 ''reported'' = Inr (False, one_task)
   \<and> map priority (tasks one_task) = [1] \<and> map timeout (tasks one_task) = [0]"
  using persisted_statuses_are_column_enum[where
      rs="[(here, Add ''/a'' add_defaults), (here, SetStatus 1 ''processing'')]" and d=5
      and db=one_task and i=1 and st="''reported''" and c=here]
  by (simp add: one_task_eq here_def Database_set_status_def get_def new_task_def
      empty_database_def add_defaults_def flush_ok_def status_type_def write_row_def Let_def)

text \<open>
  Counterexample to C8 as stated: \<open>complete\<close> with success leaves the status
  success, which is not among the six values the claim lists.
\<close>

theorem success_status_counterexample:
  "map status (tasks (history [(here, Complete 1 True)] one_task)) = [''success'']
   \<and> ''success'' \<notin> set claimed_statuses"
  by (simp add: one_task_eq here_def complete_def get_def new_task_def
      empty_database_def add_defaults_def flush_ok_def status_type_def write_row_def Let_def
      claimed_statuses_def)











section \<open>Properties of the cleanup of stored results\<close>

lemma delete_if_sole_proj [simp]:
  "analysis_collection (delete_if_sole q x m) = analysis_collection m"
  "calls_collection (delete_if_sole q x m) = calls_collection m"
  "find_count q' (delete_if_sole q x m) = find_count q' m"
  by (simp_all add: delete_if_sole_def fs_delete_def find_count_def)

lemma fs_delete_if_sole:
  "fs (delete_if_sole q x m) = fs m - {y. y = x \<and> find_count (q x) m = 1}"
  by (auto simp: delete_if_sole_def fs_delete_def)

lemma fold_delete_proj [simp]:
  "analysis_collection (fold (delete_if_sole q) xs m) = analysis_collection m"
  "calls_collection (fold (delete_if_sole q) xs m) = calls_collection m"
  "find_count q' (fold (delete_if_sole q) xs m) = find_count q' m"
  by (induction xs arbitrary: m) simp_all

lemma fs_fold_delete:
  "fs (fold (delete_if_sole q) xs m) = fs m - {x \<in> set xs. find_count (q x) m = 1}"
  by (induction xs arbitrary: m) (auto simp: fs_delete_if_sole)

lemma fold_drop_proj [simp]:
  "analysis_collection (fold (\<lambda>d m. case d of None \<Rightarrow> m | Some x \<Rightarrow> delete_if_sole q x m) ds m)
     = analysis_collection m"
  "calls_collection (fold (\<lambda>d m. case d of None \<Rightarrow> m | Some x \<Rightarrow> delete_if_sole q x m) ds m)
     = calls_collection m"
  "find_count q' (fold (\<lambda>d m. case d of None \<Rightarrow> m | Some x \<Rightarrow> delete_if_sole q x m) ds m)
     = find_count q' m"
  by (induction ds arbitrary: m) (simp_all split: option.splits)

lemma fs_fold_drop:
  "fs (fold (\<lambda>d m. case d of None \<Rightarrow> m | Some x \<Rightarrow> delete_if_sole q x m) ds m)
     = fs m - {x. Some x \<in> set ds \<and> find_count (q x) m = 1}"
  by (induction ds arbitrary: m) (auto simp: fs_delete_if_sole split: option.splits)

lemma remove_call_proj [simp]:
  "analysis_collection (remove_call c m) = analysis_collection m"
  "fs (remove_call c m) = fs m"
  "calls_collection (remove_call c m) = calls_collection m - {c}"
  by (simp_all add: remove_call_def)

lemma fold_remove_call_proj [simp]:
  "analysis_collection (fold remove_call cs m) = analysis_collection m"
  "fs (fold remove_call cs m) = fs m"
  by (induction cs arbitrary: m) simp_all

lemma calls_fold_remove_call:
  "calls_collection (fold remove_call cs m) = calls_collection m - set cs"
  by (induction cs arbitrary: m) auto

lemma fold_processes_proj [simp]:
  "analysis_collection (fold (\<lambda>proc m. fold remove_call proc m) ps m) = analysis_collection m"
  "fs (fold (\<lambda>proc m. fold remove_call proc m) ps m) = fs m"
  by (induction ps arbitrary: m) simp_all

lemma calls_fold_processes:
  "calls_collection (fold (\<lambda>proc m. fold remove_call proc m) ps m)
     = calls_collection m - \<Union>(set ` set ps)"
  by (induction ps arbitrary: m) (auto simp: calls_fold_remove_call)

lemma in_set_option: "x \<in> set_option v \<longleftrightarrow> v = Some x"
  by (cases v) auto

lemma sole_references_fields:
  "sole_references a m =
     {f. target_file_id a = Some f \<and> find_count (\<lambda>b. target_file_id b = Some f) m = 1}
     \<union> {s \<in> set (shots a). find_count (\<lambda>b. s \<in> set (shots b)) m = 1}
     \<union> {p. network_pcap_id a = Some p \<and> find_count (\<lambda>b. network_pcap_id b = Some p) m = 1}
     \<union> {p. network_sorted_pcap_id a = Some p
            \<and> find_count (\<lambda>b. network_sorted_pcap_id b = Some p) m = 1}
     \<union> {x. Some x \<in> set (dropped a) \<and> find_count (\<lambda>b. Some x \<in> set (dropped b)) m = 1}"
  (is "?L = ?R")
proof
  show "?L \<subseteq> ?R"
  proof
    fix x assume "x \<in> ?L"
    then obtain F where F: "x \<in> field_ids F a" "find_count (\<lambda>b. x \<in> field_ids F b) m = 1"
      by (auto simp: sole_references_def)
    then show "x \<in> ?R" by (cases F) (auto simp: in_set_option)
  qed
  show "?R \<subseteq> ?L"
  proof
    fix x assume "x \<in> ?R"
    then consider "target_file_id a = Some x \<and> find_count (\<lambda>b. target_file_id b = Some x) m = 1"
      | "x \<in> set (shots a) \<and> find_count (\<lambda>b. x \<in> set (shots b)) m = 1"
      | "network_pcap_id a = Some x \<and> find_count (\<lambda>b. network_pcap_id b = Some x) m = 1"
      | "network_sorted_pcap_id a = Some x \<and> find_count (\<lambda>b. network_sorted_pcap_id b = Some x) m = 1"
      | "Some x \<in> set (dropped a) \<and> find_count (\<lambda>b. Some x \<in> set (dropped b)) m = 1"
      by blast
    then show "x \<in> ?L"
    proof cases
      case 1
      then have "x \<in> field_ids TargetFile a \<and> find_count (\<lambda>b. x \<in> field_ids TargetFile b) m = 1"
        by (simp add: in_set_option)
      then show ?thesis unfolding sole_references_def by blast
    next
      case 2
      then have "x \<in> field_ids Shots a \<and> find_count (\<lambda>b. x \<in> field_ids Shots b) m = 1"
        by simp
      then show ?thesis unfolding sole_references_def by blast
    next
      case 3
      then have "x \<in> field_ids Pcap a \<and> find_count (\<lambda>b. x \<in> field_ids Pcap b) m = 1"
        by (simp add: in_set_option)
      then show ?thesis unfolding sole_references_def by blast
    next
      case 4
      then have "x \<in> field_ids SortedPcap a \<and> find_count (\<lambda>b. x \<in> field_ids SortedPcap b) m = 1"
        by (simp add: in_set_option)
      then show ?thesis unfolding sole_references_def by blast
    next
      case 5
      then have "x \<in> field_ids Dropped a \<and> find_count (\<lambda>b. x \<in> field_ids Dropped b) m = 1"
        by (simp add: in_set_option)
      then show ?thesis unfolding sole_references_def by blast
    qed
  qed
qed

lemma cleanup_analysis_fs: "fs (cleanup_analysis a m) = fs m - sole_references a m"
  unfolding sole_references_fields cleanup_analysis_def Let_def
  by (cases "target_file_id a"; cases "network_pcap_id a"; cases "network_sorted_pcap_id a")
     (auto simp: fs_fold_delete fs_fold_drop fs_delete_if_sole)

lemma cleanup_analysis_calls:
  "calls_collection (cleanup_analysis a m)
     = calls_collection m - \<Union>(set ` set (behavior_processes a))"
  unfolding cleanup_analysis_def Let_def
  by (cases "target_file_id a"; cases "network_pcap_id a"; cases "network_sorted_pcap_id a")
     (simp_all add: calls_fold_processes)

lemma cleanup_analysis_collection:
  "analysis_collection (cleanup_analysis a m)
     = filter (\<lambda>b. analysis_id b \<noteq> analysis_id a) (analysis_collection m)"
  unfolding cleanup_analysis_def Let_def
  by (cases "target_file_id a"; cases "network_pcap_id a"; cases "network_sorted_pcap_id a")
     simp_all

lemma cleanup_stored_one: "cleanup 1 stored = cleanup_analysis first_analysis stored"
  by (simp add: cleanup_def stored_def first_analysis_def second_analysis_def)

lemma sole_stored: "sole_references first_analysis stored = {200, 300, 400}"
  unfolding sole_references_fields
  by (auto simp: find_count_def stored_def first_analysis_def second_analysis_def)

lemma cleanup_stored:
  "fs (cleanup 1 stored) = {100, 201}"
  "calls_collection (cleanup 1 stored) = {502}"
  "analysis_collection (cleanup 1 stored) = [second_analysis]"
proof -
  show "fs (cleanup 1 stored) = {100, 201}"
    unfolding cleanup_stored_one cleanup_analysis_fs sole_stored
    by (auto simp: stored_def)
  show "calls_collection (cleanup 1 stored) = {502}"
    unfolding cleanup_stored_one cleanup_analysis_calls
    by (auto simp: stored_def first_analysis_def)
  show "analysis_collection (cleanup 1 stored) = [second_analysis]"
    unfolding cleanup_stored_one cleanup_analysis_collection
    by (simp add: stored_def first_analysis_def second_analysis_def)
qed

section \<open>Properties of process\<close>

lemma task_id_unbound: "process_frame tgt copy_path task report auto ''task_id'' = None"
  by (simp add: process_frame_def process_locals_def module_globals_def builtins_def)

lemma load_task_id:
  "load_name ''task_id'' (process_frame tgt copy_path task report auto)
     = Inl (NameError ''task_id'')"
  by (simp add: load_name_def task_id_unbound)

text \<open>
  C1. What the claim asks for: on regenerating the report of task 1, screenshot
  200, which the analysis of task 1 alone references, is deleted, and the call
  documents and the analysis record of task 1 are removed. The lines 57 to 77
  would do so (\<open>cleanup 1\<close> deletes 200). The call of \<open>process\<close> does not:
  with every stage returning and MongoDB enabled it raises the \<open>NameError\<close> for
  \<open>task_id\<close> at line 56, and the blob, the call documents and the record are
  still there.
\<close>

theorem process_report_deletes_nothing:
  "process all_return task_one (Some ''/tmp/a'') None PyObject True False
     = (task_one, Some (NameError ''task_id''))
   \<and> mongo_db task_one = stored
   \<and> reference_count stored 200 = 1 \<and> 200 \<in> set (shots first_analysis)
   \<and> info_id first_analysis = 1
   \<and> 200 \<notin> fs (cleanup 1 stored)
   \<and> 200 \<in> fs (mongo_db (fst (process all_return task_one (Some ''/tmp/a'') None PyObject
                                   True False)))
   \<and> first_analysis \<in> set (analysis_collection (mongo_db (fst
         (process all_return task_one (Some ''/tmp/a'') None PyObject True False))))
   \<and> {500, 501} \<subseteq> calls_collection (mongo_db (fst
         (process all_return task_one (Some ''/tmp/a'') None PyObject True False)))"
proof -
  have p: "process all_return task_one (Some ''/tmp/a'') None PyObject True False
     = (task_one, Some (NameError ''task_id''))"
    by (simp add: process_def stages_def delete_previous_def load_task_id all_return_def)
  have r: "reference_count stored 200 = 1"
    by (simp add: reference_count_def referenced_ids_def find_count_def stored_def
        first_analysis_def second_analysis_def)
  have m: "mongo_db task_one = stored" by (simp add: task_one_def)
  have c: "200 \<notin> fs (cleanup 1 stored)" by (simp add: cleanup_stored)
  have f: "200 \<in> fs stored" "first_analysis \<in> set (analysis_collection stored)"
    "{500, 501} \<subseteq> calls_collection stored"
    "200 \<in> set (shots first_analysis)" "info_id first_analysis = 1"
    by (simp_all add: stored_def first_analysis_def)
  from p r m c f show ?thesis by simp
qed

text \<open>
  C10. A call of \<open>process\<close> with \<open>report=True\<close> always ends in an exception and
  never changes the status of a task. When the stages return and the MongoDB
  block is entered, the exception is the \<open>NameError\<close> for \<open>task_id\<close>, raised
  before anything is deleted; when MongoDB is disabled and reporting returns, it
  is the same \<open>NameError\<close>, raised at the status update.
\<close>

theorem process_report_raises_NameError:
  "(\<exists>e. snd (process x w tgt copy_path task True auto) = Some e)
   \<and> task_status (fst (process x w tgt copy_path task True auto)) = task_status w
   \<and> (stages x = None \<and> mongodb_enabled x \<and> mongo_client x = None \<longrightarrow>
        process x w tgt copy_path task True auto = (w, Some (NameError ''task_id'')))
   \<and> (stages x = None \<and> \<not> mongodb_enabled x \<and> run_reporting x (mongo_db w) = Inr m \<longrightarrow>
        process x w tgt copy_path task True auto
          = (w\<lparr>mongo_db := m\<rparr>, Some (NameError ''task_id'')))"
  by (auto simp: process_def delete_previous_def report_and_mark_def load_task_id Let_def
      split: option.splits sum.splits)

text \<open>
  Witness for C10: every stage returns, MongoDB is enabled, the task is number 5
  and completed. The call raises the \<open>NameError\<close>, and the task is still
  completed.
\<close>

theorem process_report_witness:
  "process all_return task_five (Some ''/tmp/a'') None (PyInt 5) True True
     = (task_five, Some (NameError ''task_id''))
   \<and> task_status task_five 5 = Some TASK_COMPLETED"
proof -
  have h: "stages all_return = None \<and> mongodb_enabled all_return \<and> mongo_client all_return = None"
    by (simp add: all_return_def stages_def)
  from process_report_raises_NameError[of all_return task_five "Some ''/tmp/a''" None "PyInt 5"
      True] h
  have "process all_return task_five (Some ''/tmp/a'') None (PyInt 5) True True
     = (task_five, Some (NameError ''task_id''))" by blast
  then show ?thesis by (simp add: task_five_def)
qed

section \<open>Properties of the scheduling loop\<close>

lemma reap_one_fields:
  "pending_results (reap_one ob r s)
     = (if ready ob (fst r) then remove1 r (pending_results s) else pending_results s)"
  "count (reap_one ob r s) = count s"
  "submitted (reap_one ob r s) = submitted s"
  by (cases r; simp add: Let_def)+

lemma distinct_map_remove1: "distinct (map f xs) \<Longrightarrow> distinct (map f (remove1 x xs))"
proof (induction xs)
  case Nil
  then show ?case by simp
next
  case (Cons y ys)
  have "set (remove1 x ys) \<subseteq> set ys" by (rule set_remove1_subset)
  with Cons show ?case by auto
qed

lemma length_remove1_le: "length (remove1 x xs) \<le> length xs"
  by (simp add: length_remove1)

lemma reap_one_keeps:
  "length (pending_results (reap_one ob r s)) \<le> length (pending_results s)"
  "distinct (map tid_of (pending_results s))
     \<Longrightarrow> distinct (map tid_of (pending_results (reap_one ob r s)))"
  by (simp_all add: reap_one_fields length_remove1_le distinct_map_remove1)

lemma reap_states_keep:
  "s' \<in> set (reap_states ob rs s) \<Longrightarrow>
     length (pending_results s') \<le> length (pending_results s)
     \<and> (distinct (map tid_of (pending_results s)) \<longrightarrow> distinct (map tid_of (pending_results s')))
     \<and> count s' = count s \<and> submitted s' = submitted s"
proof (induction rs arbitrary: s)
  case Nil
  then show ?case by simp
next
  case (Cons r rs)
  from Cons.prems have "s' = s \<or> s' \<in> set (reap_states ob rs (reap_one ob r s))" by simp
  then show ?case
  proof
    assume "s' = s" then show ?thesis by simp
  next
    assume "s' \<in> set (reap_states ob rs (reap_one ob r s))"
    from Cons.IH[OF this] reap_one_keeps[where ob=ob and r=r and s=s] show ?thesis
      by (auto simp: reap_one_fields)
  qed
qed

lemma fold_in_reap_states: "fold (reap_one ob) rs s \<in> set (reap_states ob rs s)"
  by (induction rs arbitrary: s) simp_all

lemma reap_keeps:
  "length (pending_results (reap ob s)) \<le> length (pending_results s)"
  "distinct (map tid_of (pending_results s)) \<Longrightarrow> distinct (map tid_of (pending_results (reap ob s)))"
  "count (reap ob s) = count s"
  "submitted (reap ob s) = submitted s"
  using reap_states_keep[OF fold_in_reap_states[where ob=ob and rs="pending_results s" and s=s]]
  by (simp_all add: reap_def)

lemma submit_first_cases:
  "submit_first root ob ts s = Inr (s', added) \<Longrightarrow>
     (\<not> added \<and> s' = s)
     \<or> (added \<and> (\<exists>(t::completed_task) cp. t \<in> set ts \<and> id_of t \<notin> set (map tid_of (pending_results s))
           \<and> pending_results s' = pending_results s @ [(submitted s, id_of t, target t, cp)]
           \<and> count s' = count s + 1 \<and> submitted s' = Suc (submitted s)
           \<and> table s' = table s))"
proof (induction ts)
  case Nil
  then show ?case by simp
next
  case (Cons t ts)
  show ?case
  proof (cases "id_of t \<in> set (map tid_of (pending_results s))")
    case True
    with Cons show ?thesis by auto
  next
    case False
    with Cons.prems obtain cp where "copy_path_of root ob t = Inr cp"
      and "s' = s\<lparr>pending_results := pending_results s @ [(submitted s, id_of t, target t, cp)],
                  count := count s + 1, submitted := Suc (submitted s)\<rparr>" and "added"
      by (auto split: sum.splits)
    with False show ?thesis by auto
  qed
qed

lemma pass_cases:
  assumes "pass root parallel ob s = Inr s'"
  shows "s' = reap ob s
     \<or> (int (length (pending_results (reap ob s))) < parallel
        \<and> (\<exists>(t::completed_task) cp. id_of t \<notin> set (map tid_of (pending_results (reap ob s)))
           \<and> pending_results s'
               = pending_results (reap ob s) @ [(submitted s, id_of t, target t, cp)]
           \<and> count s' = count s + 1 \<and> submitted s' = Suc (submitted s)))"
proof (cases "parallel \<le> int (length (pending_results (reap ob s)))")
  case True
  with assms show ?thesis by (simp add: pass_def Let_def)
next
  case False
  with assms obtain rows added where
    "submit_first root ob (take (nat parallel) rows) (reap ob s) = Inr (s', added)"
    by (auto simp: pass_def Let_def split: sum.splits)
  from submit_first_cases[OF this] show ?thesis
  proof
    assume "\<not> added \<and> s' = reap ob s" then show ?thesis by simp
  next
    assume "added \<and> (\<exists>(t::completed_task) cp. t \<in> set (take (nat parallel) rows)
           \<and> id_of t \<notin> set (map tid_of (pending_results (reap ob s)))
           \<and> pending_results s'
               = pending_results (reap ob s) @ [(submitted (reap ob s), id_of t, target t, cp)]
           \<and> count s' = count (reap ob s) + 1 \<and> submitted s' = Suc (submitted (reap ob s))
           \<and> table s' = table (reap ob s))"
    then obtain t :: completed_task and cp where "id_of t \<notin> set (map tid_of (pending_results (reap ob s)))"
      "pending_results s'
         = pending_results (reap ob s) @ [(submitted (reap ob s), id_of t, target t, cp)]"
      "count s' = count (reap ob s) + 1" "submitted s' = Suc (submitted (reap ob s))"
      by blast
    then have "\<exists>(t::completed_task) cp. id_of t \<notin> set (map tid_of (pending_results (reap ob s)))
           \<and> pending_results s'
               = pending_results (reap ob s) @ [(submitted s, id_of t, target t, cp)]
           \<and> count s' = count s + 1 \<and> submitted s' = Suc (submitted s)"
      unfolding reap_keeps by blast
    with False show ?thesis by simp
  qed
qed

lemma pass_in_flight:
  assumes "pass root parallel ob s = Inr s'"
    and "int (length (pending_results s)) \<le> parallel"
    and "distinct (map tid_of (pending_results s))"
  shows "int (length (pending_results s')) \<le> parallel \<and> distinct (map tid_of (pending_results s'))"
proof -
  have l: "int (length (pending_results (reap ob s))) \<le> parallel"
    using reap_keeps(1)[of ob s] assms(2) by linarith
  have d: "distinct (map tid_of (pending_results (reap ob s)))"
    using reap_keeps(2)[OF assms(3)] .
  from pass_cases[OF assms(1)] show ?thesis
  proof
    assume "s' = reap ob s" with l d show ?thesis by simp
  next
    assume "int (length (pending_results (reap ob s))) < parallel
        \<and> (\<exists>(t::completed_task) cp. id_of t \<notin> set (map tid_of (pending_results (reap ob s)))
           \<and> pending_results s'
               = pending_results (reap ob s) @ [(submitted s, id_of t, target t, cp)]
           \<and> count s' = count s + 1 \<and> submitted s' = Suc (submitted s))"
    with d show ?thesis by (auto simp: tid_of_def)
  qed
qed

lemma run_states_in_flight:
  assumes "int (length (pending_results s)) \<le> parallel"
    and "distinct (map tid_of (pending_results s))"
    and "s' \<in> set (run_states root maxcount parallel obs s)"
  shows "int (length (pending_results s')) \<le> parallel \<and> distinct (map tid_of (pending_results s'))"
  using assms
proof (induction obs arbitrary: s)
  case Nil
  then show ?case by simp
next
  case (Cons ob obs)
  show ?case
  proof (cases "loop_test maxcount s")
    case False
    with Cons.prems show ?thesis by simp
  next
    case True
    with Cons.prems(3) consider
        (maintenance) "s' \<in> set (reap_states ob (pending_results s) s)"
      | (later) s1 where "pass root parallel ob s = Inr s1"
          "s' \<in> set (run_states root maxcount parallel obs s1)"
      by (cases "pass root parallel ob s") auto
    then show ?thesis
    proof cases
      case maintenance
      from reap_states_keep[OF this] Cons.prems(1,2) show ?thesis by auto
    next
      case later
      from pass_in_flight[OF later(1) Cons.prems(1,2)] Cons.IH[OF _ _ later(2)]
      show ?thesis by blast
    qed
  qed
qed

lemma reap_quiet: "reap quiet s = s"
proof -
  have "\<And>r s. reap_one quiet r s = s" by (case_tac r) (simp add: quiet_def)
  then have "\<And>rs s. fold (reap_one quiet) rs s = s" by (induct_tac rs) simp_all
  then show ?thesis by (simp add: reap_def)
qed

lemma reap_states_quiet: "reap_states quiet rs s = replicate (Suc (length rs)) s"
proof (induction rs)
  case Nil
  then show ?case by simp
next
  case (Cons r rs)
  have "reap_one quiet r s = s" by (cases r) (simp add: quiet_def)
  with Cons show ?case by simp
qed

lemma pass_quiet_0: "pass root 2 quiet (initial tbl) = Inr (one_in_flight tbl)"
  by (simp add: pass_def reap_quiet Let_def)
     (simp add: initial_def quiet_def url_task_def copy_path_of_def in_flight_def
        one_in_flight_def)

lemma pass_quiet_1: "pass root 2 quiet (one_in_flight tbl) = Inr (two_in_flight tbl)"
  by (simp add: pass_def reap_quiet Let_def)
     (simp add: quiet_def url_task_def copy_path_of_def in_flight_def tid_of_def
        one_in_flight_def two_in_flight_def)

lemma tests_two:
  "loop_test 2 (initial tbl)" "loop_test 2 (one_in_flight tbl)" "\<not> loop_test 2 (two_in_flight tbl)"
  by (simp_all add: loop_test_def initial_def one_in_flight_def two_in_flight_def)

lemma run_two:
  "autoprocess two_at_most 2 tbl [quiet, quiet, quiet] = Inr (two_in_flight tbl, Exited)"
  by (simp add: autoprocess_def two_at_most_def tests_two pass_quiet_0 pass_quiet_1)

lemma states_two:
  "autoprocess_states two_at_most 2 tbl [quiet, quiet, quiet]
     = [initial tbl, one_in_flight tbl, one_in_flight tbl, two_in_flight tbl]"
  by (simp add: autoprocess_states_def two_at_most_def tests_two pass_quiet_0 pass_quiet_1
        reap_states_quiet)
     (simp add: initial_def one_in_flight_def)

text \<open>
  C2. In every state that the variables of \<open>autoprocess\<close> go through (at each
  test of the loop, after each step of the maintenance, after a submission),
  \<open>pending_results\<close> holds at most \<open>parallel\<close> entries and no two entries with
  the same task id.
\<close>

theorem in_flight_bounded_and_distinct:
  "\<forall>s\<in>set (autoprocess_states cfg parallel tbl obs).
     int (length (pending_results s)) \<le> parallel \<and> distinct (map tid_of (pending_results s))"
proof
  fix s assume s: "s \<in> set (autoprocess_states cfg parallel tbl obs)"
  then have p: "1 \<le> parallel" by (auto simp: autoprocess_states_def split: if_splits)
  with s have "s \<in> set (run_states (cuckoo_root cfg) (max_analysis_count cfg) parallel obs (initial tbl))"
    by (simp add: autoprocess_states_def)
  from run_states_in_flight[OF _ _ this] p
  show "int (length (pending_results s)) \<le> parallel \<and> distinct (map tid_of (pending_results s))"
    by (simp add: initial_def)
qed

text \<open>
  Witness for C2: two workers, three completed tasks, at most two submissions.
  The states hold no entry, then task 7, then tasks 7 and 8.
\<close>

theorem in_flight_witness:
  "list_all (\<lambda>s. int (length (pending_results s)) \<le> 2 \<and> distinct (map tid_of (pending_results s)))
     (autoprocess_states two_at_most 2 three_completed [quiet, quiet, quiet])
   \<and> map (\<lambda>s. map tid_of (pending_results s))
        (autoprocess_states two_at_most 2 three_completed [quiet, quiet, quiet])
      = [[], [7], [7], [7, 8]]"
proof -
  have "map (\<lambda>s. map tid_of (pending_results s))
        (autoprocess_states two_at_most 2 three_completed [quiet, quiet, quiet])
      = [[], [7], [7], [7, 8]]"
    by (simp add: states_two initial_def one_in_flight_def two_in_flight_def in_flight_def
        tid_of_def)
  with in_flight_bounded_and_distinct[of two_at_most 2 three_completed "[quiet, quiet, quiet]"]
  show ?thesis by (simp add: list_all_iff)
qed

lemma pass_count:
  assumes "pass root parallel ob s = Inr s'"
  shows "(count s' = count s \<and> submitted s' = submitted s)
     \<or> (count s' = count s + 1 \<and> submitted s' = Suc (submitted s))"
  using pass_cases[OF assms] by (auto simp: reap_keeps)

lemma pass_grows_by_one:
  assumes "pass root parallel ob s = Inr s'"
  shows "length (pending_results s') \<le> Suc (length (pending_results (reap ob s)))"
proof -
  from pass_cases[OF assms] consider "s' = reap ob s"
    | t :: completed_task and cp where "pending_results s'
        = pending_results (reap ob s) @ [(submitted s, id_of t, target t, cp)]"
    by blast
  then show ?thesis
  proof cases
    case 1
    then show ?thesis by simp
  next
    case 2
    then have "length (pending_results s') = Suc (length (pending_results (reap ob s)))"
      by simp
    then show ?thesis by simp
  qed
qed

lemma run_states_count:
  assumes "0 < maxcount" and "count s \<le> maxcount" and "count s = int (submitted s)"
    and "s' \<in> set (run_states root maxcount parallel obs s)"
  shows "count s' \<le> maxcount \<and> count s' = int (submitted s')"
  using assms
proof (induction obs arbitrary: s)
  case Nil
  then show ?case by simp
next
  case (Cons ob obs)
  show ?case
  proof (cases "loop_test maxcount s")
    case False
    with Cons.prems show ?thesis by simp
  next
    case True
    then have lt: "count s < maxcount" using Cons.prems(1) by (simp add: loop_test_def)
    from True Cons.prems(4) consider
        (maintenance) "s' \<in> set (reap_states ob (pending_results s) s)"
      | (later) s1 where "pass root parallel ob s = Inr s1"
          "s' \<in> set (run_states root maxcount parallel obs s1)"
      by (cases "pass root parallel ob s") auto
    then show ?thesis
    proof cases
      case maintenance
      from reap_states_keep[OF this] Cons.prems(2,3) show ?thesis by auto
    next
      case later
      from pass_count[OF later(1)] lt Cons.prems(3)
      have "count s1 \<le> maxcount" "count s1 = int (submitted s1)" by auto
      from Cons.IH[OF Cons.prems(1) this later(2)] show ?thesis .
    qed
  qed
qed

lemma run_unlimited: "run root 0 parallel obs s = (s', e) \<Longrightarrow> e \<noteq> Exited"
proof (induction obs arbitrary: s)
  case Nil
  then show ?case by (auto simp: loop_test_def)
next
  case (Cons ob obs)
  show ?case
  proof (cases "pass root parallel ob s")
    case (Inl err)
    with Cons.prems show ?thesis by (auto simp: loop_test_def)
  next
    case (Inr s1)
    with Cons.prems have "run root 0 parallel obs s1 = (s', e)" by (simp add: loop_test_def)
    from Cons.IH[OF this] show ?thesis .
  qed
qed

text \<open>
  C3. With a positive \<open>max_analysis_count\<close>, in every state of a run \<open>count\<close>
  is at most \<open>max_analysis_count\<close> and equals the number of submissions made to
  the pool. One pass of the loop makes at most one submission and adds at most
  one entry to what the maintenance left. With \<open>max_analysis_count\<close> 0 the test
  of the loop never fails.
\<close>

theorem submissions_capped:
  "(0 < max_analysis_count cfg \<longrightarrow>
     (\<forall>s\<in>set (autoprocess_states cfg parallel tbl obs).
        count s \<le> max_analysis_count cfg \<and> count s = int (submitted s)))
   \<and> (\<forall>s s'. pass (cuckoo_root cfg) parallel ob s = Inr s' \<longrightarrow>
           submitted s' \<le> Suc (submitted s)
           \<and> length (pending_results s') \<le> Suc (length (pending_results (reap ob s))))
   \<and> (max_analysis_count cfg = 0 \<and> autoprocess cfg parallel tbl obs = Inr (s1, e)
        \<longrightarrow> e \<noteq> Exited)"
proof (intro impI conjI ballI allI)
  fix s assume m: "0 < max_analysis_count cfg"
    and s: "s \<in> set (autoprocess_states cfg parallel tbl obs)"
  then have "s \<in> set (run_states (cuckoo_root cfg) (max_analysis_count cfg) parallel obs (initial tbl))"
    by (auto simp: autoprocess_states_def split: if_splits)
  from run_states_count[OF m _ _ this]
  have "count s \<le> max_analysis_count cfg \<and> count s = int (submitted s)"
    using m by (simp add: initial_def)
  then show "count s \<le> max_analysis_count cfg" "count s = int (submitted s)" by simp_all
next
  fix s s' assume "pass (cuckoo_root cfg) parallel ob s = Inr s'"
  then show "submitted s' \<le> Suc (submitted s)"
    "length (pending_results s') \<le> Suc (length (pending_results (reap ob s)))"
    using pass_count pass_grows_by_one by fastforce+
next
  assume "max_analysis_count cfg = 0 \<and> autoprocess cfg parallel tbl obs = Inr (s1, e)"
  then have "run (cuckoo_root cfg) 0 parallel obs (initial tbl) = (s1, e)"
    by (auto simp: autoprocess_def split: if_splits)
  from run_unlimited[OF this] show "e \<noteq> Exited" .
qed


text \<open>Witness for C3: the same run; \<open>count\<close> goes from 0 to 2 and stops.\<close>

theorem submissions_witness:
  "list_all (\<lambda>s. count s \<le> 2 \<and> count s = int (submitted s))
     (autoprocess_states two_at_most 2 three_completed [quiet, quiet, quiet])
   \<and> map count (autoprocess_states two_at_most 2 three_completed [quiet, quiet, quiet])
      = [0, 1, 1, 2]"
proof -
  have mx: "max_analysis_count two_at_most = 2" by (simp add: two_at_most_def)
  have m: "0 < max_analysis_count two_at_most" by (simp add: two_at_most_def)
  have c: "map count (autoprocess_states two_at_most 2 three_completed [quiet, quiet, quiet])
      = [0, 1, 1, 2]"
    by (simp add: states_two initial_def one_in_flight_def two_in_flight_def)
  from submissions_capped[of two_at_most 2 three_completed "[quiet, quiet, quiet]" quiet] m
  have "\<forall>s\<in>set (autoprocess_states two_at_most 2 three_completed [quiet, quiet, quiet]).
        count s \<le> max_analysis_count two_at_most \<and> count s = int (submitted s)"
    by blast
  then have "list_all (\<lambda>s. count s \<le> 2 \<and> count s = int (submitted s))
     (autoprocess_states two_at_most 2 three_completed [quiet, quiet, quiet])"
    unfolding list_all_iff mx .
  with c show ?thesis by blast
qed

lemma run_exit:
  assumes "0 < maxcount" and "count s \<le> maxcount"
    and "count s = maxcount \<longrightarrow> pending_results s \<noteq> []"
    and "run root maxcount parallel obs s = (s', e)"
  shows "(e = Exited \<longrightarrow> count s' = maxcount \<and> pending_results s' \<noteq> [])
     \<and> (e = Looping \<longrightarrow> count s' < maxcount)"
  using assms
proof (induction obs arbitrary: s)
  case Nil
  then show ?case by (auto simp: loop_test_def split: if_splits)
next
  case (Cons ob obs)
  show ?case
  proof (cases "loop_test maxcount s")
    case False
    with Cons.prems show ?thesis by (auto simp: loop_test_def)
  next
    case True
    then have lt: "count s < maxcount" using Cons.prems(1) by (simp add: loop_test_def)
    show ?thesis
    proof (cases "pass root parallel ob s")
      case (Inl err)
      with True Cons.prems(4) show ?thesis by auto
    next
      case (Inr s1)
      from pass_cases[OF Inr] lt
      have a: "count s1 \<le> maxcount" and b: "count s1 = maxcount \<longrightarrow> pending_results s1 \<noteq> []"
        by (auto simp: reap_keeps)
      from Inr True Cons.prems(4) have "run root maxcount parallel obs s1 = (s', e)" by simp
      from Cons.IH[OF Cons.prems(1) a b this] show ?thesis .
    qed
  qed
qed

text \<open>
  C5, as amended. With a positive \<open>max_analysis_count\<close>, when no exception
  leaves the loop, the loop has ended exactly when \<open>count\<close> has reached
  \<open>max_analysis_count\<close>: while it is below, the loop goes on. The test does not
  look at \<open>pending_results\<close>, and at the end the entry submitted last is still
  in it.
\<close>

theorem loop_exits_when_count_reaches_maxcount:
  "0 < max_analysis_count cfg \<and> autoprocess cfg parallel tbl obs = Inr (s, e) \<longrightarrow>
     (e = Exited \<longrightarrow> count s = max_analysis_count cfg \<and> pending_results s \<noteq> [])
     \<and> (e = Looping \<longrightarrow> count s < max_analysis_count cfg)"
proof
  assume a: "0 < max_analysis_count cfg \<and> autoprocess cfg parallel tbl obs = Inr (s, e)"
  then have r: "run (cuckoo_root cfg) (max_analysis_count cfg) parallel obs (initial tbl) = (s, e)"
    by (auto simp: autoprocess_def split: if_splits)
  from a have m: "0 < max_analysis_count cfg" by simp
  show "(e = Exited \<longrightarrow> count s = max_analysis_count cfg \<and> pending_results s \<noteq> [])
     \<and> (e = Looping \<longrightarrow> count s < max_analysis_count cfg)"
    by (rule run_exit[OF m _ _ r]) (use m in \<open>simp_all add: initial_def\<close>)
qed

text \<open>
  Witness for C5: the run above ends after its second submission, with both
  entries outstanding.
\<close>

theorem loop_exit_witness:
  "autoprocess two_at_most 2 three_completed [quiet, quiet, quiet]
     = Inr (two_in_flight three_completed, Exited)
   \<and> count (two_in_flight three_completed) = 2
   \<and> pending_results (two_in_flight three_completed) \<noteq> []"
proof -
  have m: "0 < max_analysis_count two_at_most" by (simp add: two_at_most_def)
  from loop_exits_when_count_reaches_maxcount[of two_at_most 2 three_completed
      "[quiet, quiet, quiet]" "two_in_flight three_completed" Exited] m run_two
  have "count (two_in_flight three_completed) = max_analysis_count two_at_most
     \<and> pending_results (two_in_flight three_completed) \<noteq> []" by blast
  with run_two show ?thesis by (simp add: two_at_most_def)
qed

text \<open>
  Counterexample to C5 as stated: one worker, at most one submission. The loop
  ends right after submitting task 7, whose entry is still in
  \<open>pending_results\<close>.
\<close>

theorem loop_exits_with_submission_outstanding_counterexample:
  "autoprocess one_at_most 1 three_completed [quiet, quiet]
     = Inr (one_in_flight three_completed, Exited)
   \<and> pending_results (one_in_flight three_completed) = [(0, 7, ''http://example.org'', None)]"
proof -
  have "pass ''/opt/cuckoo'' 1 quiet (initial three_completed) = Inr (one_in_flight three_completed)"
    by (simp add: pass_def reap_quiet Let_def)
       (simp add: initial_def quiet_def url_task_def copy_path_of_def in_flight_def
          one_in_flight_def)
  then show ?thesis
    by (simp add: autoprocess_def one_at_most_def loop_test_def)
       (simp add: initial_def one_in_flight_def in_flight_def)
qed

lemma reap_one_table:
  "table (reap_one ob r s)
     = (if ready ob (fst r) \<and> \<not> successful ob (fst r)
        then snd (set_status (status_commits ob (tid_of r)) (tid_of r) TASK_FAILED_PROCESSING
                    (table s))
        else table s)"
  by (cases r) (simp add: Let_def tid_of_def)

lemma fold_reap_pending:
  assumes "pending_results s = pre @ rs" and "\<forall>p\<in>set pre. \<not> ready ob (fst p)"
  shows "pending_results (fold (reap_one ob) rs s) = pre @ filter (\<lambda>r. \<not> ready ob (fst r)) rs"
  using assms
proof (induction rs arbitrary: s pre)
  case Nil
  then show ?case by simp
next
  case (Cons r rs)
  show ?case
  proof (cases "ready ob (fst r)")
    case True
    with Cons.prems(2) have "r \<notin> set pre" by auto
    with True Cons.prems(1) have "pending_results (reap_one ob r s) = pre @ rs"
      by (simp add: reap_one_fields remove1_append)
    from Cons.IH[OF this Cons.prems(2)] True show ?thesis by simp
  next
    case False
    with Cons.prems(1) have "pending_results (reap_one ob r s) = (pre @ [r]) @ rs"
      by (simp add: reap_one_fields)
    from Cons.IH[OF this] False Cons.prems(2) show ?thesis by simp
  qed
qed

lemma reap_pending:
  "pending_results (reap ob s) = filter (\<lambda>r. \<not> ready ob (fst r)) (pending_results s)"
  using fold_reap_pending[of s "[]" "pending_results s" ob] by (simp add: reap_def)

lemma fold_reap_table_other:
  assumes "\<forall>r\<in>set rs. ready ob (fst r) \<and> \<not> successful ob (fst r) \<longrightarrow> tid_of r \<noteq> j"
  shows "table (fold (reap_one ob) rs s) j = table s j"
  using assms
proof (induction rs arbitrary: s)
  case Nil
  then show ?case by simp
next
  case (Cons r rs)
  have "table (reap_one ob r s) j = table s j"
    using Cons.prems by (auto simp: reap_one_table set_status_def)
  with Cons.IH[of "reap_one ob r s"] Cons.prems show ?case by simp
qed

lemma fold_reap_table_stays:
  assumes "table s j = Some TASK_FAILED_PROCESSING"
  shows "table (fold (reap_one ob) rs s) j = Some TASK_FAILED_PROCESSING"
  using assms
proof (induction rs arbitrary: s)
  case Nil
  then show ?case by simp
next
  case (Cons r rs)
  have "table (reap_one ob r s) j = Some TASK_FAILED_PROCESSING"
    using Cons.prems by (auto simp: reap_one_table set_status_def)
  from Cons.IH[OF this] show ?case by simp
qed

lemma fold_reap_table_failed:
  assumes "r \<in> set rs" and "ready ob (fst r)" and "\<not> successful ob (fst r)"
    and "status_commits ob (tid_of r)" and "tid_of r \<in> dom (table s)"
  shows "table (fold (reap_one ob) rs s) (tid_of r) = Some TASK_FAILED_PROCESSING"
  using assms
proof (induction rs arbitrary: s)
  case Nil
  then show ?case by simp
next
  case (Cons q rs)
  show ?case
  proof (cases "q = r")
    case True
    with Cons.prems have "table (reap_one ob q s) (tid_of r) = Some TASK_FAILED_PROCESSING"
      by (simp add: reap_one_table set_status_def)
    from fold_reap_table_stays[OF this] show ?thesis by simp
  next
    case False
    with Cons.prems(1) have in_rs: "r \<in> set rs" by simp
    have "dom (table (reap_one ob q s)) = dom (table s)"
      by (auto simp: reap_one_table set_status_def)
    with Cons.prems(5) have "tid_of r \<in> dom (table (reap_one ob q s))" by simp
    from Cons.IH[OF in_rs Cons.prems(2,3,4) this] show ?thesis by simp
  qed
qed

lemma fold_reap_table_no_commit:
  assumes "\<not> status_commits ob j"
  shows "table (fold (reap_one ob) rs s) j = table s j"
proof (induction rs arbitrary: s)
  case Nil
  then show ?case by simp
next
  case (Cons r rs)
  have "table (reap_one ob r s) j = table s j"
    using assms by (auto simp: reap_one_table set_status_def)
  with Cons.IH[of "reap_one ob r s"] show ?case by simp
qed

text \<open>
  C4, as amended. For an entry whose result is ready and not successful, the
  maintenance removes the entry and calls the status setter for its task with
  failed_processing: the status of the task is failed_processing afterwards when
  the commit of that call goes through and the task has a row, and is what it
  was before when the commit fails (the answer of the setter is not looked at).
  Exactly the entries whose result is not ready stay, in their order; the status
  of every task that has no such failed entry is untouched; \<open>count\<close> is
  untouched.
\<close>

theorem reap_marks_failed_when_commit_succeeds:
  "(ar, tid, tgt, cp) \<in> set (pending_results s) \<and> ready ob ar \<and> \<not> successful ob ar \<longrightarrow>
     (ar, tid, tgt, cp) \<notin> set (pending_results (reap ob s))
     \<and> (status_commits ob tid \<and> tid \<in> dom (table s) \<longrightarrow>
          table (reap ob s) tid = Some TASK_FAILED_PROCESSING)
     \<and> (\<not> status_commits ob tid \<longrightarrow> table (reap ob s) tid = table s tid)
     \<and> pending_results (reap ob s) = filter (\<lambda>r. \<not> ready ob (fst r)) (pending_results s)
     \<and> (\<forall>j. (\<forall>r\<in>set (pending_results s).
                 ready ob (fst r) \<and> \<not> successful ob (fst r) \<longrightarrow> tid_of r \<noteq> j)
            \<longrightarrow> table (reap ob s) j = table s j)
     \<and> count (reap ob s) = count s \<and> submitted (reap ob s) = submitted s"
proof
  let ?r = "(ar, tid, tgt, cp)"
  assume a: "?r \<in> set (pending_results s) \<and> ready ob ar \<and> \<not> successful ob ar"
  have 1: "?r \<notin> set (pending_results (reap ob s))" using a by (simp add: reap_pending)
  have 2: "status_commits ob tid \<and> tid \<in> dom (table s) \<longrightarrow>
          table (reap ob s) tid = Some TASK_FAILED_PROCESSING"
    using fold_reap_table_failed[of ?r "pending_results s" ob s] a
    by (simp add: reap_def tid_of_def)
  have 3: "\<forall>j. (\<forall>r\<in>set (pending_results s).
                 ready ob (fst r) \<and> \<not> successful ob (fst r) \<longrightarrow> tid_of r \<noteq> j)
            \<longrightarrow> table (reap ob s) j = table s j"
    using fold_reap_table_other[of "pending_results s" ob _ s] by (simp add: reap_def)
  have 4: "\<not> status_commits ob tid \<longrightarrow> table (reap ob s) tid = table s tid"
    using fold_reap_table_no_commit[of ob tid "pending_results s" s] by (simp add: reap_def)
  from 1 2 3 4 show "?r \<notin> set (pending_results (reap ob s))
     \<and> (status_commits ob tid \<and> tid \<in> dom (table s) \<longrightarrow>
          table (reap ob s) tid = Some TASK_FAILED_PROCESSING)
     \<and> (\<not> status_commits ob tid \<longrightarrow> table (reap ob s) tid = table s tid)
     \<and> pending_results (reap ob s) = filter (\<lambda>r. \<not> ready ob (fst r)) (pending_results s)
     \<and> (\<forall>j. (\<forall>r\<in>set (pending_results s).
                 ready ob (fst r) \<and> \<not> successful ob (fst r) \<longrightarrow> tid_of r \<noteq> j)
            \<longrightarrow> table (reap ob s) j = table s j)
     \<and> count (reap ob s) = count s \<and> submitted (reap ob s) = submitted s"
    by (simp add: reap_pending reap_keeps)
qed

lemma reap_first_failed:
  "pending_results (reap first_failed two_waiting) = [(1, 8, ''/tmp/b'', None)]"
  "table (reap first_failed two_waiting) 7 = Some TASK_FAILED_PROCESSING"
  "table (reap first_failed two_waiting) 8 = Some TASK_COMPLETED"
  by (simp_all add: reap_def two_waiting_def first_failed_def set_status_def Let_def)

text \<open>
  Witness for C4: of two entries the first has failed. Its task 7 becomes
  failed_processing and its entry goes; the entry of task 8 stays and task 8 is
  still completed.
\<close>

theorem reap_witness:
  "pending_results (reap first_failed two_waiting) = [(1, 8, ''/tmp/b'', None)]
   \<and> table (reap first_failed two_waiting) 7 = Some TASK_FAILED_PROCESSING
   \<and> table (reap first_failed two_waiting) 8 = Some TASK_COMPLETED"
proof -
  have h: "(0, 7, ''/tmp/a'', None) \<in> set (pending_results two_waiting)
      \<and> ready first_failed 0 \<and> \<not> successful first_failed 0"
    by (simp add: two_waiting_def first_failed_def)
  have c: "status_commits first_failed 7 \<and> 7 \<in> dom (table two_waiting)"
    by (simp add: two_waiting_def first_failed_def)
  from reap_marks_failed_when_commit_succeeds[of 0 7 "''/tmp/a''" None two_waiting first_failed]
    h c
  have "table (reap first_failed two_waiting) 7 = Some TASK_FAILED_PROCESSING" by blast
  with reap_first_failed show ?thesis by simp
qed

text \<open>
  Counterexample to C4 as stated: the same pass with a commit that fails. The
  entry of task 7 is removed, and task 7 is still completed.
\<close>

theorem reap_commit_failure_counterexample:
  "pending_results (reap (first_failed\<lparr>status_commits := (\<lambda>i. False)\<rparr>) two_waiting)
     = [(1, 8, ''/tmp/b'', None)]
   \<and> table (reap (first_failed\<lparr>status_commits := (\<lambda>i. False)\<rparr>) two_waiting) 7
     = Some TASK_COMPLETED
   \<and> TASK_COMPLETED \<noteq> TASK_FAILED_PROCESSING"
  by (simp add: reap_def two_waiting_def first_failed_def set_status_def Let_def
      TASK_COMPLETED_def TASK_FAILED_PROCESSING_def)


end
